theory Spec2Isabelle
  imports Main
begin

section \<open>The dialog API: \<open>gom.api.dialog.execute\<close>\<close>

text \<open>
  \<^verbatim>\<open>def execute(context, data): return gom.__api__.__call_function__(context, data)\<close>

  The host call boundary \<open>__call_function__\<close> lives outside the repository, so it is a
  parameter of the model. It takes the script context and the dialog reference, may change
  the host state \<open>'h\<close>, and either raises (\<open>Inl\<close>) or returns a value (\<open>Inr\<close>).
\<close>

definition execute ::
  "('c \<Rightarrow> string \<Rightarrow> 'h \<Rightarrow> ('e + 'w) \<times> 'h) \<Rightarrow> 'c \<Rightarrow> string \<Rightarrow> 'h \<Rightarrow> ('e + 'w) \<times> 'h"
where
  "execute call_function context data = call_function context data"


section \<open>Scripted elements: construction\<close>

text \<open>
  \<open>self.dialog\<close> and \<open>self.compute_stages\<close> evaluate to bound methods: the object
  together with the attribute that was looked up on it.
\<close>

datatype 'o bound_method = Bound_method 'o string

text \<open>
  \<open>ScriptedElement.__init__\<close> only calls the constructor of the base class
  \<open>gom.__common__.Contribution\<close> with four keyword arguments. The base class is not part
  of these sources, so its constructor is the parameter \<open>Contribution_init\<close>, applied to
  \<open>self\<close>, \<open>name\<close>, \<open>category\<close>, \<open>callables\<close> and \<open>properties\<close>. The two dict
  literals are association lists in the order in which their keys are written.
\<close>

definition ScriptedElement_init ::
  "('o \<Rightarrow> string \<Rightarrow> string \<Rightarrow> (string \<times> 'o bound_method) list \<Rightarrow> (string \<times> string) list \<Rightarrow> 'a)
     \<Rightarrow> 'o \<Rightarrow> string \<Rightarrow> string \<Rightarrow> string \<Rightarrow> 'a"
where
  "ScriptedElement_init Contribution_init self nm element_type category =
     Contribution_init self nm category
       [(''dialog'', Bound_method self ''dialog''),
        (''compute_stages'', Bound_method self ''compute_stages'')]
       [(''element_type'', element_type)]"

definition ScriptedActual_init ::
  "('o \<Rightarrow> string \<Rightarrow> string \<Rightarrow> (string \<times> 'o bound_method) list \<Rightarrow> (string \<times> string) list \<Rightarrow> 'a)
     \<Rightarrow> 'o \<Rightarrow> string \<Rightarrow> string \<Rightarrow> 'a"
where
  "ScriptedActual_init Contribution_init self nm element_type =
     ScriptedElement_init Contribution_init self nm element_type ''scriptedelement.actual''"

definition ScriptedCheck_init ::
  "('o \<Rightarrow> string \<Rightarrow> string \<Rightarrow> (string \<times> 'o bound_method) list \<Rightarrow> (string \<times> string) list \<Rightarrow> 'a)
     \<Rightarrow> 'o \<Rightarrow> string \<Rightarrow> string \<Rightarrow> 'a"
where
  "ScriptedCheck_init Contribution_init self nm element_type =
     ScriptedElement_init Contribution_init self nm element_type ''scriptedelement.check''"


section \<open>Scripted elements: the default \<open>compute_stages\<close>\<close>

subsection \<open>The signature of the author's \<open>compute\<close>\<close>

text \<open>
  \<open>inspect.signature(self.compute).parameters\<close> is an ordered mapping from parameter
  names to \<open>inspect.Parameter\<close> objects; of a parameter the code reads its name (the
  mapping's key) and its kind. As \<open>self.compute\<close> is a bound method, \<open>self\<close> is not among
  the parameters, while the parameter that receives the context is. The author's
  \<open>compute\<close> is a method written in Python, so it has a signature, which is a parameter
  of the model.
\<close>

datatype kind =
  POSITIONAL_ONLY | POSITIONAL_OR_KEYWORD | VAR_POSITIONAL | KEYWORD_ONLY | VAR_KEYWORD

record parameter =
  param_name :: string
  param_kind :: kind

text \<open>
  Keyword arguments: a dict from names to values, in insertion order. The values are
  opaque. The call \<open>self.compute(context, **kwargs)\<close> unpacks the dict anew each time, so
  what \<open>compute\<close> does with the arguments it receives does not change the dict.
\<close>

type_synonym 'v kwargs = "(string \<times> 'v) list"

subsection \<open>The context and the store\<close>

text \<open>
  The context is a mutable object of the host. The code writes its attribute \<open>stage\<close>
  and reads its attribute \<open>stages\<close>, which refers to a list object; the \<open>for\<close> statement
  iterates over that object, not over a copy. The state therefore holds the attribute
  \<open>stage\<close>, the attribute \<open>stages\<close> as a reference, and the store \<open>heap\<close> of list
  objects. Every other attribute of the context, and whatever else the author's code can
  reach, is the extension part of the record. Stage identifiers are integers.
\<close>

type_synonym ref = nat

record state =
  stage :: int
  stages :: ref
  heap :: "ref \<Rightarrow> int list"

text \<open>
  The author's \<open>compute\<close> is a parameter: given the state in which it is called and the
  keyword arguments, the call \<open>self.compute(context, **kwargs)\<close> either raises (\<open>Inl\<close>)
  or returns a value (\<open>Inr\<close>), and leaves a new state behind.
\<close>

type_synonym ('v, 'e, 'r, 'm) compute =
  "'m state_scheme \<Rightarrow> 'v kwargs \<Rightarrow> ('e + 'r) \<times> 'm state_scheme"

text \<open>
  A log entry for one call of \<open>compute\<close>: the state at the moment of the call and the
  keyword arguments passed. The log is not data of the program; it is kept so that
  statements about the calls can be made.
\<close>

type_synonym ('v, 'm) call = "'m state_scheme \<times> 'v kwargs"

type_synonym ('v, 'e, 'r, 'm) outcome =
  "('e + 'r list) \<times> 'm state_scheme \<times> ('v, 'm) call list"

subsection \<open>The loop\<close>

text \<open>
  \<^verbatim>\<open>
  for stage in context.stages:
      context.stage = stage
      result.append(self.compute(context, **kwargs))
  return result
  \<close>
  \<open>it\<close> is the list object that \<open>context.stages\<close> referred to when the loop was
  entered and \<open>i\<close> the index of Python's list iterator: each round compares \<open>i\<close> with the
  current length of the object, so that elements which \<open>compute\<close> appends are visited too
  and the loop need not end. An exception raised by \<open>compute\<close> leaves the loop and the
  function at once. \<open>result\<close> is the list under construction and \<open>calls\<close> the log.
\<close>

partial_function (option) compute_stages_loop ::
  "('v, 'e, 'r, 'm) compute \<Rightarrow> 'v kwargs \<Rightarrow> ref \<Rightarrow> nat \<Rightarrow> 'r list \<Rightarrow> ('v, 'm) call list
     \<Rightarrow> 'm state_scheme \<Rightarrow> ('v, 'e, 'r, 'm) outcome option"
where
  "compute_stages_loop compute kwargs it i result calls context =
     (if i < length (heap context it) then
        let context1 = context\<lparr>stage := heap context it ! i\<rparr> in
        case compute context1 kwargs of
          (Inl e, context2) \<Rightarrow> Some (Inl e, context2, calls @ [(context1, kwargs)])
        | (Inr v, context2) \<Rightarrow>
            compute_stages_loop compute kwargs it (i + 1) (result @ [v])
              (calls @ [(context1, kwargs)]) context2
      else Some (Inr result, context, calls))"

declare compute_stages_loop.simps [code]

subsection \<open>\<open>ScriptedElement.compute_stages\<close>\<close>

text \<open>
  \<^verbatim>\<open>
  result = []
  params = inspect.signature(self.compute).parameters
  has_args = any(p.kind == inspect.Parameter.VAR_POSITIONAL for p in params.values())
  has_kwargs = any(p.kind == inspect.Parameter.VAR_KEYWORD for p in params.values())
  if not (has_args or has_kwargs):
      kwargs = {k: v for k, v in kwargs.items() if k in params}
  \<close>
  followed by the loop. The value is \<open>None\<close> when the call does not return; otherwise it
  holds the exception or the result vector, the state left behind, and the log of the
  calls of \<open>compute\<close>.
\<close>

definition compute_stages ::
  "parameter list \<Rightarrow> ('v, 'e, 'r, 'm) compute \<Rightarrow> 'm state_scheme \<Rightarrow> 'v kwargs
     \<Rightarrow> ('v, 'e, 'r, 'm) outcome option"
where
  "compute_stages params compute context kwargs =
     (let has_args = list_ex (\<lambda>p. param_kind p = VAR_POSITIONAL) params;
          has_kwargs = list_ex (\<lambda>p. param_kind p = VAR_KEYWORD) params;
          kwargs = (if \<not> (has_args \<or> has_kwargs)
                    then filter (\<lambda>(k, v). k \<in> set (map param_name params)) kwargs
                    else kwargs)
      in compute_stages_loop compute kwargs (stages context) 0 [] [] context)"

subsection \<open>Notions used in the statements\<close>

text \<open>
  The keyword arguments that the specification says reach \<open>compute\<close>: all of them when
  \<open>compute\<close> declares a catch-all parameter of either kind, and otherwise the entries
  whose key is the name of a declared parameter.
\<close>

definition filtered_kwargs :: "parameter list \<Rightarrow> 'v kwargs \<Rightarrow> 'v kwargs" where
  "filtered_kwargs params kwargs =
     (if \<exists>p \<in> set params. param_kind p = VAR_POSITIONAL \<or> param_kind p = VAR_KEYWORD
      then kwargs
      else filter (\<lambda>(k, v). \<exists>p \<in> set params. param_name p = k) kwargs)"

text \<open>What a logged call returned or raised, and the state it left behind.\<close>

definition call_result :: "('v, 'e, 'r, 'm) compute \<Rightarrow> ('v, 'm) call \<Rightarrow> 'e + 'r" where
  "call_result compute c = fst (compute (fst c) (snd c))"

definition call_state :: "('v, 'e, 'r, 'm) compute \<Rightarrow> ('v, 'm) call \<Rightarrow> 'm state_scheme" where
  "call_state compute c = snd (compute (fst c) (snd c))"

text \<open>
  The author's \<open>compute\<close> leaves the stage sequence of the context alone: it neither
  rebinds the attribute \<open>stages\<close> nor changes the list object the attribute refers to.
\<close>

definition keeps_stages :: "('v, 'e, 'r, 'm) compute \<Rightarrow> bool" where
  "keeps_stages compute \<longleftrightarrow>
     (\<forall>ctx kwargs. stages (snd (compute ctx kwargs)) = stages ctx
        \<and> heap (snd (compute ctx kwargs)) (stages ctx) = heap ctx (stages ctx))"

text \<open>The author's \<open>compute\<close> does not write the attribute \<open>stage\<close>.\<close>

definition keeps_stage :: "('v, 'e, 'r, 'm) compute \<Rightarrow> bool" where
  "keeps_stage compute \<longleftrightarrow> (\<forall>ctx kwargs. stage (snd (compute ctx kwargs)) = stage ctx)"

text \<open>
  The loop over a fixed sequence of stages: what \<open>compute_stages_loop\<close> does from the
  current index on as long as the list object keeps its contents.
\<close>

fun visit ::
  "('v, 'e, 'r, 'm) compute \<Rightarrow> 'v kwargs \<Rightarrow> int list \<Rightarrow> 'r list \<Rightarrow> ('v, 'm) call list
     \<Rightarrow> 'm state_scheme \<Rightarrow> ('v, 'e, 'r, 'm) outcome"
where
  "visit compute kwargs [] result calls ctx = (Inr result, ctx, calls)"
| "visit compute kwargs (x # xs) result calls ctx =
     (let ctx1 = ctx\<lparr>stage := x\<rparr> in
      case compute ctx1 kwargs of
        (Inl e, ctx2) \<Rightarrow> (Inl e, ctx2, calls @ [(ctx1, kwargs)])
      | (Inr v, ctx2) \<Rightarrow>
          visit compute kwargs xs (result @ [v]) (calls @ [(ctx1, kwargs)]) ctx2)"


section \<open>Properties of the default \<open>compute_stages\<close>\<close>

subsection \<open>The loop as a recursion over the stage sequence\<close>

lemma filtered_kwargs_code:
  "(if \<not> (list_ex (\<lambda>p. param_kind p = VAR_POSITIONAL) params
           \<or> list_ex (\<lambda>p. param_kind p = VAR_KEYWORD) params)
    then filter (\<lambda>(k, v). k \<in> set (map param_name params)) kwargs
    else kwargs) = filtered_kwargs params kwargs"
proof -
  have "(\<lambda>(k, v). k \<in> set (map param_name params)) = (\<lambda>(k, v::'a). \<exists>p \<in> set params. param_name p = k)"
    by (auto simp: fun_eq_iff)
  then show ?thesis
    unfolding filtered_kwargs_def list_ex_iff by auto
qed

lemma compute_stages_loop_eq:
  "compute_stages params compute ctx kwargs =
     compute_stages_loop compute (filtered_kwargs params kwargs) (stages ctx) 0 [] [] ctx"
  unfolding compute_stages_def Let_def filtered_kwargs_code ..

lemma loop_visit:
  assumes "keeps_stages compute" and "stages ctx = it"
  shows "compute_stages_loop compute kwargs it i result calls ctx =
           Some (visit compute kwargs (drop i (heap ctx it)) result calls ctx)"
  using assms(2)
proof (induction "length (heap ctx it) - i" arbitrary: i result calls ctx)
  case 0
  then show ?case by (subst compute_stages_loop.simps) simp
next
  case (Suc n)
  then have lt: "i < length (heap ctx it)" by simp
  let ?c1 = "ctx\<lparr>stage := heap ctx it ! i\<rparr>"
  obtain out c2 where c: "compute ?c1 kwargs = (out, c2)" by (cases "compute ?c1 kwargs")
  have "stages ?c1 = it" "heap ?c1 it = heap ctx it" using Suc.prems by simp_all
  with assms(1) c have h2: "stages c2 = it" "heap c2 it = heap ctx it"
    unfolding keeps_stages_def by (metis snd_conv)+
  have d: "drop i (heap ctx it) = heap ctx it ! i # drop (Suc i) (heap ctx it)"
    using lt by (simp add: Cons_nth_drop_Suc)
  show ?case
  proof (cases out)
    case (Inl e)
    then show ?thesis using lt c d by (subst compute_stages_loop.simps) simp
  next
    case (Inr v)
    have "n = length (heap c2 it) - Suc i" using Suc.hyps(2) h2 by simp
    from Suc.hyps(1)[OF this h2(1), of "result @ [v]" "calls @ [(?c1, kwargs)]"]
    show ?thesis using lt c d Inr h2 by (subst compute_stages_loop.simps) simp
  qed
qed

lemma compute_stages_visit:
  assumes "keeps_stages compute"
  shows "compute_stages params compute ctx kwargs =
           Some (visit compute (filtered_kwargs params kwargs) (heap ctx (stages ctx)) [] [] ctx)"
  using loop_visit[OF assms refl, of "filtered_kwargs params kwargs" ctx 0 "[]" "[]"]
  by (simp add: compute_stages_loop_eq)

lemma visit_log:
  "visit compute kwargs xs result calls ctx = (out, ctx', cs) \<Longrightarrow>
     \<exists>new. cs = calls @ new \<and> length new \<le> length xs
       \<and> map (\<lambda>c. stage (fst c)) new = take (length new) xs
       \<and> (\<forall>c \<in> set new. snd c = kwargs)
       \<and> ctx' = (if new = [] then ctx else call_state compute (last new))
       \<and> (\<forall>vs. out = Inr vs \<longrightarrow> length new = length xs
             \<and> (\<exists>vn. vs = result @ vn \<and> map (call_result compute) new = map Inr vn))
       \<and> (\<forall>e. out = Inl e \<longrightarrow> (\<exists>vn. map (call_result compute) new = map Inr vn @ [Inl e]))"
proof (induction xs arbitrary: result calls ctx)
  case Nil
  then show ?case by auto
next
  case (Cons x xs)
  let ?c1 = "ctx\<lparr>stage := x\<rparr>"
  obtain o1 c2 where c: "compute ?c1 kwargs = (o1, c2)" by (cases "compute ?c1 kwargs")
  show ?case
  proof (cases o1)
    case (Inl e)
    with Cons.prems c have "out = Inl e" "ctx' = c2" "cs = calls @ [(?c1, kwargs)]" by auto
    then show ?thesis using c Inl
      by (intro exI[of _ "[(?c1, kwargs)]"]) (auto simp: call_result_def call_state_def)
  next
    case (Inr v)
    with Cons.prems c have
      "visit compute kwargs xs (result @ [v]) (calls @ [(?c1, kwargs)]) c2 = (out, ctx', cs)"
      by simp
    from Cons.IH[OF this] obtain new where n:
      "cs = (calls @ [(?c1, kwargs)]) @ new" "length new \<le> length xs"
      "map (\<lambda>c. stage (fst c)) new = take (length new) xs"
      "\<forall>c \<in> set new. snd c = kwargs"
      "ctx' = (if new = [] then c2 else call_state compute (last new))"
      "\<forall>vs. out = Inr vs \<longrightarrow> length new = length xs
             \<and> (\<exists>vn. vs = (result @ [v]) @ vn \<and> map (call_result compute) new = map Inr vn)"
      "\<forall>e. out = Inl e \<longrightarrow> (\<exists>vn. map (call_result compute) new = map Inr vn @ [Inl e])"
      by blast
    let ?new = "(?c1, kwargs) # new"
    have r: "call_result compute (?c1, kwargs) = Inr v" "call_state compute (?c1, kwargs) = c2"
      using c Inr by (simp_all add: call_result_def call_state_def)
    have 1: "cs = calls @ ?new" using n(1) by simp
    have 2: "length ?new \<le> length (x # xs)" using n(2) by simp
    have 3: "map (\<lambda>c. stage (fst c)) ?new = take (length ?new) (x # xs)" using n(3) by simp
    have 4: "\<forall>c \<in> set ?new. snd c = kwargs" using n(4) by simp
    have 5: "ctx' = (if ?new = [] then ctx else call_state compute (last ?new))"
      using n(5) r(2) by simp
    have 6: "\<forall>vs. out = Inr vs \<longrightarrow> length ?new = length (x # xs)
             \<and> (\<exists>vn. vs = result @ vn \<and> map (call_result compute) ?new = map Inr vn)"
    proof (intro allI impI)
      fix vs assume "out = Inr vs"
      with n(6) obtain vn where "length new = length xs" "vs = (result @ [v]) @ vn"
        "map (call_result compute) new = map Inr vn" by blast
      then show "length ?new = length (x # xs)
             \<and> (\<exists>vn. vs = result @ vn \<and> map (call_result compute) ?new = map Inr vn)"
        using r(1) by (intro conjI exI[of _ "v # vn"]) simp_all
    qed
    have 7: "\<forall>e. out = Inl e \<longrightarrow> (\<exists>vn. map (call_result compute) ?new = map Inr vn @ [Inl e])"
    proof (intro allI impI)
      fix e assume "out = Inl e"
      with n(7) obtain vn where "map (call_result compute) new = map Inr vn @ [Inl e]" by blast
      then show "\<exists>vn. map (call_result compute) ?new = map Inr vn @ [Inl e]"
        using r(1) by (intro exI[of _ "v # vn"]) simp
    qed
    from 1 2 3 4 5 6 7 show ?thesis by blast
  qed
qed

lemma visit_frame:
  assumes "\<And>s x. f (s\<lparr>stage := x\<rparr>) = f s" and "\<And>s kw. f (snd (compute s kw)) = f s"
  shows "f (fst (snd (visit compute kwargs xs result calls ctx))) = f ctx
       \<and> (\<forall>c \<in> set (snd (snd (visit compute kwargs xs result calls ctx))).
             c \<in> set calls \<or> f (fst c) = f ctx)"
proof (induction xs arbitrary: result calls ctx)
  case Nil
  then show ?case by simp
next
  case (Cons x xs)
  let ?c1 = "ctx\<lparr>stage := x\<rparr>"
  obtain o1 c2 where c: "compute ?c1 kwargs = (o1, c2)" by (cases "compute ?c1 kwargs")
  have f1: "f ?c1 = f ctx" by (rule assms(1))
  have f2: "f c2 = f ctx" using assms(2)[of ?c1 kwargs] f1 c by simp
  show ?case
  proof (cases o1)
    case (Inl e)
    then show ?thesis using c f1 f2 by auto
  next
    case (Inr v)
    then show ?thesis
      using c f1 f2 Cons.IH[of "result @ [v]" "calls @ [(?c1, kwargs)]" c2] by auto
  qed
qed

text \<open>
  What every call of the loop that comes back has done, whatever \<open>compute\<close> does to the
  state: the calls it logged, the state it left and its outcome.
\<close>

lemma loop_log:
  "compute_stages_loop compute kwargs it i result calls ctx = Some y \<Longrightarrow>
     \<exists>new. snd (snd y) = calls @ new
       \<and> (\<forall>c \<in> set new. snd c = kwargs)
       \<and> fst (snd y) = (if new = [] then ctx else call_state compute (last new))
       \<and> (\<forall>vs. fst y = Inr vs \<longrightarrow>
             (\<exists>vn. vs = result @ vn \<and> map (call_result compute) new = map Inr vn))
       \<and> (\<forall>e. fst y = Inl e \<longrightarrow> (\<exists>vn. map (call_result compute) new = map Inr vn @ [Inl e]))"
proof (induction rule: compute_stages_loop.raw_induct [rotated 1, consumes 1, case_names step])
  case (step loop compute kwargs it i result calls ctx y)
  show ?case
  proof (cases "i < length (heap ctx it)")
    case False
    with step(2) have "y = (Inr result, ctx, calls)" by simp
    then show ?thesis by (intro exI[of _ "[]"]) simp
  next
    case True
    let ?c1 = "ctx\<lparr>stage := heap ctx it ! i\<rparr>"
    obtain o1 c2 where c: "compute ?c1 kwargs = (o1, c2)" by (cases "compute ?c1 kwargs")
    show ?thesis
    proof (cases o1)
      case (Inl e)
      with step(2) True c have "y = (Inl e, c2, calls @ [(?c1, kwargs)])" by simp
      then show ?thesis using c Inl
        by (intro exI[of _ "[(?c1, kwargs)]"]) (simp add: call_result_def call_state_def)
    next
      case (Inr v)
      with step(2) True c have
        "loop compute kwargs it (i + 1) (result @ [v]) (calls @ [(?c1, kwargs)]) c2 = Some y"
        by simp
      from step(1)[OF this] obtain new where n:
        "snd (snd y) = (calls @ [(?c1, kwargs)]) @ new"
        "\<forall>c \<in> set new. snd c = kwargs"
        "fst (snd y) = (if new = [] then c2 else call_state compute (last new))"
        "\<forall>vs. fst y = Inr vs \<longrightarrow>
             (\<exists>vn. vs = (result @ [v]) @ vn \<and> map (call_result compute) new = map Inr vn)"
        "\<forall>e. fst y = Inl e \<longrightarrow> (\<exists>vn. map (call_result compute) new = map Inr vn @ [Inl e])"
        by blast
      let ?new = "(?c1, kwargs) # new"
      have r: "call_result compute (?c1, kwargs) = Inr v" "call_state compute (?c1, kwargs) = c2"
        using c Inr by (simp_all add: call_result_def call_state_def)
      have 1: "snd (snd y) = calls @ ?new" using n(1) by simp
      have 4: "\<forall>c \<in> set ?new. snd c = kwargs" using n(2) by simp
      have 5: "fst (snd y) = (if ?new = [] then ctx else call_state compute (last ?new))"
        using n(3) r(2) by simp
      have 6: "\<forall>vs. fst y = Inr vs \<longrightarrow>
               (\<exists>vn. vs = result @ vn \<and> map (call_result compute) ?new = map Inr vn)"
      proof (intro allI impI)
        fix vs assume "fst y = Inr vs"
        with n(4) obtain vn where "vs = (result @ [v]) @ vn"
          "map (call_result compute) new = map Inr vn" by blast
        then show "\<exists>vn. vs = result @ vn \<and> map (call_result compute) ?new = map Inr vn"
          using r(1) by (intro exI[of _ "v # vn"]) simp
      qed
      have 7: "\<forall>e. fst y = Inl e \<longrightarrow> (\<exists>vn. map (call_result compute) ?new = map Inr vn @ [Inl e])"
      proof (intro allI impI)
        fix e assume "fst y = Inl e"
        with n(5) obtain vn where "map (call_result compute) new = map Inr vn @ [Inl e]" by blast
        then show "\<exists>vn. map (call_result compute) ?new = map Inr vn @ [Inl e]"
          using r(1) by (intro exI[of _ "v # vn"]) simp
      qed
      from 1 4 5 6 7 show ?thesis by blast
    qed
  qed
qed

lemma compute_stages_returns:
  "keeps_stages compute \<Longrightarrow> compute_stages params compute ctx kwargs \<noteq> None"
  by (simp add: compute_stages_visit)


text \<open>
  How the states of the logged calls follow from one another: the first call is made in
  the entry state with \<open>stage\<close> written, each later call in the state the call before it
  left, with \<open>stage\<close> written.
\<close>

lemma loop_chain:
  "compute_stages_loop compute kwargs it i result calls ctx = Some y \<Longrightarrow>
     \<exists>new. snd (snd y) = calls @ new
       \<and> (new \<noteq> [] \<longrightarrow> fst (new ! 0) = ctx\<lparr>stage := heap ctx it ! i\<rparr>)
       \<and> (\<forall>k. Suc k < length new \<longrightarrow>
             fst (new ! Suc k) =
               (call_state compute (new ! k))
                 \<lparr>stage := heap (call_state compute (new ! k)) it ! (i + Suc k)\<rparr>)
       \<and> (\<forall>k < length new. i + k < length (heap (fst (new ! k)) it))"
proof (induction rule: compute_stages_loop.raw_induct [rotated 1, consumes 1, case_names step])
  case (step loop compute kwargs it i result calls ctx y)
  show ?case
  proof (cases "i < length (heap ctx it)")
    case False
    with step(2) have "y = (Inr result, ctx, calls)" by simp
    then show ?thesis by (intro exI[of _ "[]"]) simp
  next
    case True
    let ?c1 = "ctx\<lparr>stage := heap ctx it ! i\<rparr>"
    obtain o1 c2 where c: "compute ?c1 kwargs = (o1, c2)" by (cases "compute ?c1 kwargs")
    show ?thesis
    proof (cases o1)
      case (Inl e)
      with step(2) True c have "y = (Inl e, c2, calls @ [(?c1, kwargs)])" by simp
      then show ?thesis using True
        by (intro exI[of _ "[(?c1, kwargs)]"]) simp
    next
      case (Inr v)
      with step(2) True c have
        "loop compute kwargs it (i + 1) (result @ [v]) (calls @ [(?c1, kwargs)]) c2 = Some y"
        by simp
      from step(1)[OF this] obtain new where n:
        "snd (snd y) = (calls @ [(?c1, kwargs)]) @ new"
        "new \<noteq> [] \<longrightarrow> fst (new ! 0) = c2\<lparr>stage := heap c2 it ! (i + 1)\<rparr>"
        "\<forall>k. Suc k < length new \<longrightarrow>
             fst (new ! Suc k) =
               (call_state compute (new ! k))
                 \<lparr>stage := heap (call_state compute (new ! k)) it ! (i + 1 + Suc k)\<rparr>"
        "\<forall>k < length new. i + 1 + k < length (heap (fst (new ! k)) it)"
        by blast
      let ?new = "(?c1, kwargs) # new"
      have r: "call_state compute (?c1, kwargs) = c2"
        using c by (simp add: call_state_def)
      have 1: "snd (snd y) = calls @ ?new" using n(1) by simp
      have 2: "?new \<noteq> [] \<longrightarrow> fst (?new ! 0) = ctx\<lparr>stage := heap ctx it ! i\<rparr>" by simp
      have 3: "\<forall>k. Suc k < length ?new \<longrightarrow>
             fst (?new ! Suc k) =
               (call_state compute (?new ! k))
                 \<lparr>stage := heap (call_state compute (?new ! k)) it ! (i + Suc k)\<rparr>"
      proof (intro allI impI)
        fix k assume k: "Suc k < length ?new"
        show "fst (?new ! Suc k) =
               (call_state compute (?new ! k))
                 \<lparr>stage := heap (call_state compute (?new ! k)) it ! (i + Suc k)\<rparr>"
        proof (cases k)
          case 0
          with k have "new \<noteq> []" by auto
          with n(2) 0 r show ?thesis by simp
        next
          case (Suc j)
          with k have "Suc j < length new" by simp
          with n(3) Suc show ?thesis by simp
        qed
      qed
      have 4: "\<forall>k < length ?new. i + k < length (heap (fst (?new ! k)) it)"
      proof (intro allI impI)
        fix k assume k: "k < length ?new"
        show "i + k < length (heap (fst (?new ! k)) it)"
        proof (cases k)
          case 0
          then show ?thesis using True by simp
        next
          case (Suc j)
          with k have "j < length new" by simp
          with n(4) Suc show ?thesis by simp
        qed
      qed
      from 1 2 3 4 show ?thesis by blast
    qed
  qed
qed

lemma compute_stages_run:
  assumes "compute_stages params compute ctx kwargs = Some (out, ctx', calls)"
  shows "\<forall>c \<in> set calls. snd c = filtered_kwargs params kwargs"
    and "ctx' = (if calls = [] then ctx else call_state compute (last calls))"
    and "\<forall>vs. out = Inr vs \<longrightarrow> map (call_result compute) calls = map Inr vs"
    and "\<forall>e. out = Inl e \<longrightarrow> (\<exists>vn. map (call_result compute) calls = map Inr vn @ [Inl e])"
    and "calls \<noteq> [] \<longrightarrow> fst (calls ! 0) = ctx\<lparr>stage := heap ctx (stages ctx) ! 0\<rparr>"
    and "\<forall>k. Suc k < length calls \<longrightarrow>
           fst (calls ! Suc k) =
             (call_state compute (calls ! k))
               \<lparr>stage := heap (call_state compute (calls ! k)) (stages ctx) ! Suc k\<rparr>"
    and "\<forall>k < length calls. k < length (heap (fst (calls ! k)) (stages ctx))"
proof -
  from assms have l:
    "compute_stages_loop compute (filtered_kwargs params kwargs) (stages ctx) 0 [] [] ctx
       = Some (out, ctx', calls)"
    by (simp add: compute_stages_loop_eq)
  from loop_log[OF l]
  show "\<forall>c \<in> set calls. snd c = filtered_kwargs params kwargs"
    and "ctx' = (if calls = [] then ctx else call_state compute (last calls))"
    and "\<forall>vs. out = Inr vs \<longrightarrow> map (call_result compute) calls = map Inr vs"
    and "\<forall>e. out = Inl e \<longrightarrow> (\<exists>vn. map (call_result compute) calls = map Inr vn @ [Inl e])"
    by auto
  from loop_chain[OF l]
  show "calls \<noteq> [] \<longrightarrow> fst (calls ! 0) = ctx\<lparr>stage := heap ctx (stages ctx) ! 0\<rparr>"
    and "\<forall>k. Suc k < length calls \<longrightarrow>
           fst (calls ! Suc k) =
             (call_state compute (calls ! k))
               \<lparr>stage := heap (call_state compute (calls ! k)) (stages ctx) ! Suc k\<rparr>"
    and "\<forall>k < length calls. k < length (heap (fst (calls ! k)) (stages ctx))"
    by auto
qed

lemma compute_stages_kept:
  fixes compute :: "('v, 'e, 'r, 'm) compute"
  assumes "keeps_stages compute"
      and "compute_stages params compute ctx kwargs = Some (out, ctx', calls)"
  shows "length calls \<le> length (heap ctx (stages ctx))"
    and "\<forall>vs. out = Inr vs \<longrightarrow> length calls = length (heap ctx (stages ctx))"
    and "\<forall>k < length calls.
           stages (fst (calls ! k)) = stages ctx
         \<and> heap (fst (calls ! k)) (stages (fst (calls ! k))) = heap ctx (stages ctx)
         \<and> stage (fst (calls ! k)) = heap ctx (stages ctx) ! k"
proof -
  let ?xs = "heap ctx (stages ctx)"
  let ?kw = "filtered_kwargs params kwargs"
  let ?f = "\<lambda>s::'m state_scheme. (stages s, heap s (stages s))"
  have v: "visit compute ?kw ?xs [] [] ctx = (out, ctx', calls)"
    using compute_stages_visit[OF assms(1), of params ctx kwargs] assms(2) by simp
  from visit_log[OF v] have
    le: "length calls \<le> length ?xs" and
    st: "map (\<lambda>c. stage (fst c)) calls = take (length calls) ?xs" and
    ok: "\<forall>vs. out = Inr vs \<longrightarrow> length calls = length ?xs"
    by auto
  show "length calls \<le> length ?xs" by (rule le)
  show "\<forall>vs. out = Inr vs \<longrightarrow> length calls = length ?xs" by (rule ok)
  have f1: "\<And>s x. ?f (s\<lparr>stage := x\<rparr>) = ?f s" by simp
  have f2: "\<And>s kw. ?f (snd (compute s kw)) = ?f s"
    using assms(1) unfolding keeps_stages_def by simp
  from visit_frame[of ?f compute ?kw ?xs "[]" "[]" ctx, OF f1 f2] v
  have fr: "\<forall>c \<in> set calls. stages (fst c) = stages ctx
        \<and> heap (fst c) (stages (fst c)) = heap ctx (stages ctx)" by auto
  show "\<forall>k < length calls.
           stages (fst (calls ! k)) = stages ctx
         \<and> heap (fst (calls ! k)) (stages (fst (calls ! k))) = ?xs
         \<and> stage (fst (calls ! k)) = ?xs ! k"
  proof (intro allI impI)
    fix k assume k: "k < length calls"
    then have "calls ! k \<in> set calls" by simp
    with fr have a: "stages (fst (calls ! k)) = stages ctx"
        "heap (fst (calls ! k)) (stages (fst (calls ! k))) = ?xs" by auto
    have "stage (fst (calls ! k)) = map (\<lambda>c. stage (fst c)) calls ! k" using k by simp
    also have "\<dots> = ?xs ! k" using st k by simp
    finally show "stages (fst (calls ! k)) = stages ctx
         \<and> heap (fst (calls ! k)) (stages (fst (calls ! k))) = ?xs
         \<and> stage (fst (calls ! k)) = ?xs ! k" using a by simp
  qed
qed

lemma all_returned:
  assumes bad: "\<forall>e. out = Inl e \<longrightarrow> (\<exists>vn. map (call_result compute) calls = map Inr vn @ [Inl e])"
      and ret: "\<forall>k < length calls. \<exists>v. call_result compute (calls ! k) = Inr v"
  shows "\<exists>vs. out = Inr vs"
proof (cases out)
  case (Inl e)
  with bad obtain vn where m: "map (call_result compute) calls = map Inr vn @ [Inl e]" by blast
  then have l: "length calls = Suc (length vn)" by (metis length_map length_append_singleton)
  then have "map (call_result compute) calls ! length vn = call_result compute (calls ! length vn)"
    by simp
  with m have "call_result compute (calls ! length vn) = Inl e" by (simp add: nth_append)
  with ret l show ?thesis by (metis Inl_Inr_False lessI)
next
  case (Inr vs)
  then show ?thesis by blast
qed

subsection \<open>The result vector\<close>

text \<open>
  C1. For a stage sequence of any length \<open>N\<close>, when the author's \<open>compute\<close> leaves the
  stage sequence alone: the default \<open>compute_stages\<close> comes back; it returns a vector
  when every call of \<open>compute\<close> it made returned; and a vector it returns has exactly
  \<open>N\<close> entries, \<open>compute\<close> was called \<open>N\<close> times, the \<open>k\<close>-th call was made with
  \<open>stage\<close> set to the \<open>k\<close>-th stage and with the filtered keyword arguments, and the
  \<open>k\<close>-th entry is what \<open>compute\<close> returns on that state and those arguments.
\<close>

theorem compute_stages_vector:
  assumes "keeps_stages compute"
  shows "\<exists>out ctx' calls.
           compute_stages params compute ctx kwargs = Some (out, ctx', calls)
         \<and> ((\<forall>k < length calls. \<exists>v. call_result compute (calls ! k) = Inr v) \<longrightarrow>
              (\<exists>vs. out = Inr vs))
         \<and> (\<forall>vs. out = Inr vs \<longrightarrow>
               length vs = length (heap ctx (stages ctx))
             \<and> length calls = length vs
             \<and> (\<forall>k < length vs.
                   stage (fst (calls ! k)) = heap ctx (stages ctx) ! k
                 \<and> snd (calls ! k) = filtered_kwargs params kwargs
                 \<and> call_result compute (calls ! k) = Inr (vs ! k)))"
proof -
  from compute_stages_returns[OF assms, of params ctx kwargs]
  obtain out ctx' calls where r: "compute_stages params compute ctx kwargs = Some (out, ctx', calls)"
    by (cases "compute_stages params compute ctx kwargs") auto
  note g = compute_stages_run[OF r]
  note h = compute_stages_kept[OF assms r]
  have a: "(\<forall>k < length calls. \<exists>v. call_result compute (calls ! k) = Inr v) \<longrightarrow>
              (\<exists>vs. out = Inr vs)"
    using all_returned[OF g(4)] by blast
  have b: "\<forall>vs. out = Inr vs \<longrightarrow>
               length vs = length (heap ctx (stages ctx))
             \<and> length calls = length vs
             \<and> (\<forall>k < length vs.
                   stage (fst (calls ! k)) = heap ctx (stages ctx) ! k
                 \<and> snd (calls ! k) = filtered_kwargs params kwargs
                 \<and> call_result compute (calls ! k) = Inr (vs ! k))"
  proof (intro allI impI)
    fix vs assume o: "out = Inr vs"
    with g(3) have m: "map (call_result compute) calls = map Inr vs" by blast
    then have lv: "length calls = length vs" by (metis length_map)
    from o h(2) have len: "length calls = length (heap ctx (stages ctx))" by blast
    have "\<forall>k < length vs.
                   stage (fst (calls ! k)) = heap ctx (stages ctx) ! k
                 \<and> snd (calls ! k) = filtered_kwargs params kwargs
                 \<and> call_result compute (calls ! k) = Inr (vs ! k)"
    proof (intro allI impI)
      fix k assume k: "k < length vs"
      then have kc: "k < length calls" using lv by simp
      have "call_result compute (calls ! k) = map (call_result compute) calls ! k"
        using kc by simp
      also have "\<dots> = Inr (vs ! k)" using m k by simp
      finally have c: "call_result compute (calls ! k) = Inr (vs ! k)" .
      from kc have "calls ! k \<in> set calls" by simp
      with g(1) have "snd (calls ! k) = filtered_kwargs params kwargs" by blast
      with c h(3) kc show "stage (fst (calls ! k)) = heap ctx (stages ctx) ! k
                 \<and> snd (calls ! k) = filtered_kwargs params kwargs
                 \<and> call_result compute (calls ! k) = Inr (vs ! k)" by simp
    qed
    with lv len show "length vs = length (heap ctx (stages ctx))
             \<and> length calls = length vs
             \<and> (\<forall>k < length vs.
                   stage (fst (calls ! k)) = heap ctx (stages ctx) ! k
                 \<and> snd (calls ! k) = filtered_kwargs params kwargs
                 \<and> call_result compute (calls ! k) = Inr (vs ! k))" by simp
  qed
  from r a b show ?thesis by blast
qed

theorem compute_stages_vector_witness:
  "keeps_stages (\<lambda>(s :: state) (kw :: int kwargs).
              if map fst kw = [''a''] then (Inr (stage s) :: string + int, s)
              else (Inl ''TypeError'', s))
   \<and> fst ((\<lambda>(s :: state) (kw :: int kwargs).
              if map fst kw = [''a''] then (Inr (stage s) :: string + int, s)
              else (Inl ''TypeError'', s))
           \<lparr>stage = 7, stages = 0, heap = (\<lambda>_. [])(0 := [3, 4, 5])\<rparr>
           [(''a'', 1 :: int), (''c'', 3)]) = Inl ''TypeError''
   \<and> (\<exists>vs ctx' calls.
         compute_stages
           [\<lparr>param_name = ''context'', param_kind = POSITIONAL_OR_KEYWORD\<rparr>,
            \<lparr>param_name = ''a'', param_kind = POSITIONAL_OR_KEYWORD\<rparr>]
           (\<lambda>(s :: state) (kw :: int kwargs).
              if map fst kw = [''a''] then (Inr (stage s) :: string + int, s)
              else (Inl ''TypeError'', s))
           \<lparr>stage = 7, stages = 0, heap = (\<lambda>_. [])(0 := [3, 4, 5])\<rparr>
           [(''a'', 1 :: int), (''c'', 3)] = Some (Inr vs, ctx', calls)
       \<and> length vs = 3 \<and> length calls = 3
       \<and> vs ! 0 = 3 \<and> vs ! 1 = 4 \<and> vs ! 2 = 5)"
proof -
  let ?P = "[\<lparr>param_name = ''context'', param_kind = POSITIONAL_OR_KEYWORD\<rparr>,
            \<lparr>param_name = ''a'', param_kind = POSITIONAL_OR_KEYWORD\<rparr>]"
  let ?C = "(\<lambda>(s :: state) (kw :: int kwargs).
              if map fst kw = [''a''] then (Inr (stage s) :: string + int, s)
              else (Inl ''TypeError'', s))"
  let ?S = "\<lparr>stage = 7, stages = 0, heap = (\<lambda>_. [])(0 := [3, 4, 5])\<rparr>"
  let ?K = "[(''a'', 1 :: int), (''c'', 3)]"
  have k: "keeps_stages ?C" by (simp add: keeps_stages_def)
  have t: "fst (?C ?S ?K) = Inl ''TypeError''" by simp
  have f: "filtered_kwargs ?P ?K = [(''a'', 1)]" by (simp add: filtered_kwargs_def)
  have e: "\<exists>vs ctx' calls. compute_stages ?P ?C ?S ?K = Some (Inr vs, ctx', calls)"
    by (simp add: compute_stages_visit [OF k] f Let_def)
  from compute_stages_vector [OF k, of ?P ?S ?K] e obtain vs ctx' calls where
    r: "compute_stages ?P ?C ?S ?K = Some (Inr vs, ctx', calls)" and
    b: "length vs = length (heap ?S (stages ?S)) \<and> length calls = length vs
        \<and> (\<forall>k < length vs.
               stage (fst (calls ! k)) = heap ?S (stages ?S) ! k
             \<and> snd (calls ! k) = filtered_kwargs ?P ?K
             \<and> call_result ?C (calls ! k) = Inr (vs ! k))"
    by fastforce
  from b have l: "length vs = 3" "length calls = 3" by simp_all
  have v: "vs ! j = [3, 4, 5] ! j" if "j < 3" for j
  proof -
    from b l that have "stage (fst (calls ! j)) = [3, 4, 5] ! j"
      "snd (calls ! j) = filtered_kwargs ?P ?K"
      "call_result ?C (calls ! j) = Inr (vs ! j)" by simp_all
    then show ?thesis using f by (simp add: call_result_def)
  qed
  from v[of 0] v[of 1] v[of 2] have "vs ! 0 = 3" "vs ! 1 = 4" "vs ! 2 = 5" by simp_all
  with l show ?thesis using k t r by (intro conjI exI) assumption+
qed

text \<open>
  C9. On an empty stage sequence the default \<open>compute_stages\<close> returns the empty vector,
  calls \<open>compute\<close> not at all and leaves the context, its attribute \<open>stage\<close> included, as
  it was. No length is checked: the call returns normally.
\<close>

theorem compute_stages_no_stages:
  assumes "heap ctx (stages ctx) = []"
  shows "compute_stages params compute ctx kwargs = Some (Inr [], ctx, [])"
  using assms unfolding compute_stages_loop_eq
  by (subst compute_stages_loop.simps) simp

theorem compute_stages_no_stages_witness:
  "heap \<lparr>stage = 7, stages = 0, heap = (\<lambda>_. [])\<rparr> (stages \<lparr>stage = 7, stages = 0, heap = (\<lambda>_. [])\<rparr>) = []
   \<and> compute_stages
           [\<lparr>param_name = ''context'', param_kind = POSITIONAL_OR_KEYWORD\<rparr>,
            \<lparr>param_name = ''a'', param_kind = POSITIONAL_OR_KEYWORD\<rparr>]
           (\<lambda>(s :: state) (kw :: int kwargs). (Inr (stage s) :: unit + int, s))
           \<lparr>stage = 7, stages = 0, heap = (\<lambda>_. [])\<rparr>
           [(''a'', 1 :: int), (''c'', 3)]
       = Some (Inr [], \<lparr>stage = 7, stages = 0, heap = (\<lambda>_. [])\<rparr>, [])"
proof -
  let ?S = "\<lparr>stage = 7, stages = 0, heap = (\<lambda>_. [])\<rparr>"
  have h: "heap ?S (stages ?S) = []" by simp
  show ?thesis using h compute_stages_no_stages [OF h] by simp
qed

text \<open>
  C5. On the stage sequence \<open>[0]\<close> the default \<open>compute_stages\<close> is one call of
  \<open>compute\<close>, made with the attribute \<open>stage\<close> set to \<open>0\<close> and with the filtered
  keyword arguments: it returns the singleton vector of what that call returns (and
  raises what that call raises), and the state is the one that call leaves behind.
\<close>

theorem compute_stages_single_stage:
  assumes "heap ctx (stages ctx) = [0]"
      and "compute (ctx\<lparr>stage := 0\<rparr>) (filtered_kwargs params kwargs) = (r, ctx2)"
      and "heap ctx2 (stages ctx) = [0]"
  shows "compute_stages params compute ctx kwargs =
           Some (case r of Inl e \<Rightarrow> Inl e | Inr v \<Rightarrow> Inr [v], ctx2,
                 [(ctx\<lparr>stage := 0\<rparr>, filtered_kwargs params kwargs)])"
proof (cases r)
  case (Inl e)
  then show ?thesis using assms(1,2) unfolding compute_stages_loop_eq
    by (subst compute_stages_loop.simps) simp
next
  case (Inr v)
  have "compute_stages_loop compute (filtered_kwargs params kwargs) (stages ctx) (0 + 1) ([] @ [v])
          ([] @ [(ctx\<lparr>stage := 0\<rparr>, filtered_kwargs params kwargs)]) ctx2
        = Some (Inr [v], ctx2, [(ctx\<lparr>stage := 0\<rparr>, filtered_kwargs params kwargs)])"
    using assms(3) by (subst compute_stages_loop.simps) simp
  then show ?thesis using Inr assms(1,2) unfolding compute_stages_loop_eq
    by (subst compute_stages_loop.simps) simp
qed

theorem compute_stages_single_stage_witness:
  "heap \<lparr>stage = 7, stages = 0, heap = (\<lambda>_. [])(0 := [0])\<rparr>
     (stages \<lparr>stage = 7, stages = 0, heap = (\<lambda>_. [])(0 := [0])\<rparr>) = [0]
   \<and> compute_stages
           [\<lparr>param_name = ''context'', param_kind = POSITIONAL_OR_KEYWORD\<rparr>,
            \<lparr>param_name = ''a'', param_kind = POSITIONAL_OR_KEYWORD\<rparr>]
           (\<lambda>(s :: state) (kw :: int kwargs). (Inr (stage s + 100) :: unit + int, s))
           \<lparr>stage = 7, stages = 0, heap = (\<lambda>_. [])(0 := [0])\<rparr>
           [(''a'', 1 :: int), (''c'', 3)]
       = Some (Inr [100], \<lparr>stage = 0, stages = 0, heap = (\<lambda>_. [])(0 := [0])\<rparr>,
               [(\<lparr>stage = 0, stages = 0, heap = (\<lambda>_. [])(0 := [0])\<rparr>, [(''a'', 1)])])"
proof -
  let ?P = "[\<lparr>param_name = ''context'', param_kind = POSITIONAL_OR_KEYWORD\<rparr>,
            \<lparr>param_name = ''a'', param_kind = POSITIONAL_OR_KEYWORD\<rparr>]"
  let ?C = "(\<lambda>(s :: state) (kw :: int kwargs). (Inr (stage s + 100) :: unit + int, s))"
  let ?S = "\<lparr>stage = 7, stages = 0, heap = (\<lambda>_. [])(0 := [0])\<rparr>"
  let ?K = "[(''a'', 1 :: int), (''c'', 3)]"
  have h: "heap ?S (stages ?S) = [0]" by simp
  have c: "?C (?S\<lparr>stage := 0\<rparr>) (filtered_kwargs ?P ?K) = (Inr 100, ?S\<lparr>stage := 0\<rparr>)" by simp
  have g: "heap (?S\<lparr>stage := 0\<rparr>) (stages ?S) = [0]" by simp
  have f: "filtered_kwargs ?P ?K = [(''a'', 1)]" by (simp add: filtered_kwargs_def)
  show ?thesis
    using h compute_stages_single_stage
      [where compute = ?C and params = ?P and kwargs = ?K and ctx = ?S, OF h c g] f
    by simp
qed

subsection \<open>The keyword arguments\<close>

text \<open>
  C2. The keyword arguments are fixed before the first call of \<open>compute\<close>, and every
  call of \<open>compute\<close> is an application of \<open>compute\<close> to them: the incoming ones
  unchanged when \<open>compute\<close> declares a catch-all positional or a catch-all keyword
  parameter, and otherwise exactly the incoming entries whose key is the name of a
  parameter in the signature of \<open>compute\<close>, in their order. So the \<open>k\<close>-th entry of a
  returned vector is what \<open>compute\<close> returns on the state of the \<open>k\<close>-th call and the
  filtered arguments, an exception raised is the one \<open>compute\<close> raises on the state of the
  last call and the filtered arguments, and the final state is the one that application
  leaves. This holds for every call of \<open>compute_stages\<close> that comes back, whatever
  \<open>compute\<close> does; and the call does come back when \<open>compute\<close> leaves the stage
  sequence alone.
\<close>

theorem compute_stages_kwargs:
  "(keeps_stages compute \<longrightarrow> compute_stages params compute ctx kwargs \<noteq> None)
   \<and> (\<forall>out ctx' calls.
         compute_stages params compute ctx kwargs = Some (out, ctx', calls) \<longrightarrow>
           (\<forall>c \<in> set calls. snd c = filtered_kwargs params kwargs)
         \<and> (\<forall>vs. out = Inr vs \<longrightarrow>
               length vs = length calls
             \<and> (\<forall>k < length calls.
                   fst (compute (fst (calls ! k)) (filtered_kwargs params kwargs)) = Inr (vs ! k)))
         \<and> (\<forall>e. out = Inl e \<longrightarrow>
               calls \<noteq> []
             \<and> fst (compute (fst (last calls)) (filtered_kwargs params kwargs)) = Inl e)
         \<and> ctx' = (if calls = [] then ctx
                    else snd (compute (fst (last calls)) (filtered_kwargs params kwargs))))"
proof (rule conjI)
  show "keeps_stages compute \<longrightarrow> compute_stages params compute ctx kwargs \<noteq> None"
    by (simp add: compute_stages_returns)
next
  show "\<forall>out ctx' calls.
         compute_stages params compute ctx kwargs = Some (out, ctx', calls) \<longrightarrow>
           (\<forall>c \<in> set calls. snd c = filtered_kwargs params kwargs)
         \<and> (\<forall>vs. out = Inr vs \<longrightarrow>
               length vs = length calls
             \<and> (\<forall>k < length calls.
                   fst (compute (fst (calls ! k)) (filtered_kwargs params kwargs)) = Inr (vs ! k)))
         \<and> (\<forall>e. out = Inl e \<longrightarrow>
               calls \<noteq> []
             \<and> fst (compute (fst (last calls)) (filtered_kwargs params kwargs)) = Inl e)
         \<and> ctx' = (if calls = [] then ctx
                    else snd (compute (fst (last calls)) (filtered_kwargs params kwargs)))"
  proof (intro allI impI)
    fix out ctx' calls
    assume r: "compute_stages params compute ctx kwargs = Some (out, ctx', calls)"
    let ?kw = "filtered_kwargs params kwargs"
    note g = compute_stages_run[OF r]
    have cr: "\<And>c. c \<in> set calls \<Longrightarrow> call_result compute c = fst (compute (fst c) ?kw)"
      and cst: "\<And>c. c \<in> set calls \<Longrightarrow> call_state compute c = snd (compute (fst c) ?kw)"
      using g(1) by (simp_all add: call_result_def call_state_def)
    have 2: "\<forall>vs. out = Inr vs \<longrightarrow>
               length vs = length calls
             \<and> (\<forall>k < length calls. fst (compute (fst (calls ! k)) ?kw) = Inr (vs ! k))"
    proof (intro allI impI)
      fix vs assume "out = Inr vs"
      with g(3) have m: "map (call_result compute) calls = map Inr vs" by blast
      then have lv: "length vs = length calls" by (metis length_map)
      have "\<forall>k < length calls. fst (compute (fst (calls ! k)) ?kw) = Inr (vs ! k)"
      proof (intro allI impI)
        fix k assume k: "k < length calls"
        then have "fst (compute (fst (calls ! k)) ?kw) = call_result compute (calls ! k)"
          using cr by simp
        also have "\<dots> = map (call_result compute) calls ! k" using k by simp
        also have "\<dots> = Inr (vs ! k)" using m k lv by simp
        finally show "fst (compute (fst (calls ! k)) ?kw) = Inr (vs ! k)" .
      qed
      with lv show "length vs = length calls
             \<and> (\<forall>k < length calls. fst (compute (fst (calls ! k)) ?kw) = Inr (vs ! k))" by simp
    qed
    have 3: "\<forall>e. out = Inl e \<longrightarrow>
               calls \<noteq> [] \<and> fst (compute (fst (last calls)) ?kw) = Inl e"
    proof (intro allI impI)
      fix e assume "out = Inl e"
      with g(4) obtain vn where m: "map (call_result compute) calls = map Inr vn @ [Inl e]"
        by blast
      then have ne: "calls \<noteq> []" by auto
      from m have "last (map (call_result compute) calls) = Inl e" by simp
      with ne have "call_result compute (last calls) = Inl e" by (simp add: last_map)
      with ne cr show "calls \<noteq> [] \<and> fst (compute (fst (last calls)) ?kw) = Inl e" by simp
    qed
    have 4: "ctx' = (if calls = [] then ctx else snd (compute (fst (last calls)) ?kw))"
      using g(2) cst by simp
    from g(1) 2 3 4
    show "(\<forall>c \<in> set calls. snd c = ?kw)
         \<and> (\<forall>vs. out = Inr vs \<longrightarrow>
               length vs = length calls
             \<and> (\<forall>k < length calls. fst (compute (fst (calls ! k)) ?kw) = Inr (vs ! k)))
         \<and> (\<forall>e. out = Inl e \<longrightarrow>
               calls \<noteq> [] \<and> fst (compute (fst (last calls)) ?kw) = Inl e)
         \<and> ctx' = (if calls = [] then ctx else snd (compute (fst (last calls)) ?kw))"
      by blast
  qed
qed

theorem compute_stages_kwargs_witness:
  "keeps_stages (\<lambda>(s :: state) (kw :: int kwargs). (Inr kw :: unit + int kwargs, s))
   \<and> (\<exists>vs ctx' calls.
         compute_stages
           [\<lparr>param_name = ''context'', param_kind = POSITIONAL_OR_KEYWORD\<rparr>,
            \<lparr>param_name = ''a'', param_kind = POSITIONAL_OR_KEYWORD\<rparr>,
            \<lparr>param_name = ''b'', param_kind = POSITIONAL_OR_KEYWORD\<rparr>]
           (\<lambda>(s :: state) (kw :: int kwargs). (Inr kw :: unit + int kwargs, s))
           \<lparr>stage = 7, stages = 0, heap = (\<lambda>_. [])(0 := [3, 4, 5])\<rparr>
           [(''a'', 1 :: int), (''b'', 2), (''c'', 3)] = Some (Inr vs, ctx', calls)
       \<and> length vs = 3
       \<and> vs ! 0 = [(''a'', 1), (''b'', 2)]
       \<and> vs ! 1 = [(''a'', 1), (''b'', 2)]
       \<and> vs ! 2 = [(''a'', 1), (''b'', 2)]
       \<and> list_all (\<lambda>c. snd c = [(''a'', 1), (''b'', 2)]) calls)
   \<and> filtered_kwargs
         [\<lparr>param_name = ''context'', param_kind = POSITIONAL_OR_KEYWORD\<rparr>,
          \<lparr>param_name = ''kwargs'', param_kind = VAR_KEYWORD\<rparr>]
         [(''a'', 1 :: int), (''c'', 3)] = [(''a'', 1), (''c'', 3)]"
proof -
  let ?P = "[\<lparr>param_name = ''context'', param_kind = POSITIONAL_OR_KEYWORD\<rparr>,
            \<lparr>param_name = ''a'', param_kind = POSITIONAL_OR_KEYWORD\<rparr>,
            \<lparr>param_name = ''b'', param_kind = POSITIONAL_OR_KEYWORD\<rparr>]"
  let ?C = "(\<lambda>(s :: state) (kw :: int kwargs). (Inr kw :: unit + int kwargs, s))"
  let ?S = "\<lparr>stage = 7, stages = 0, heap = (\<lambda>_. [])(0 := [3, 4, 5])\<rparr>"
  let ?K = "[(''a'', 1 :: int), (''b'', 2), (''c'', 3)]"
  have k: "keeps_stages ?C" by (simp add: keeps_stages_def)
  have f: "filtered_kwargs ?P ?K = [(''a'', 1), (''b'', 2)]" by (simp add: filtered_kwargs_def)
  have n: "map_option (\<lambda>(out, s, cs). length cs) (compute_stages ?P ?C ?S ?K) = Some 3"
    by (simp add: compute_stages_visit [OF k] f Let_def)
  have e: "\<exists>vs ctx' calls. compute_stages ?P ?C ?S ?K = Some (Inr vs, ctx', calls)"
    by (simp add: compute_stages_visit [OF k] f Let_def)
  then obtain vs ctx' calls where
    r: "compute_stages ?P ?C ?S ?K = Some (Inr vs, ctx', calls)" by blast
  note t = compute_stages_kwargs [of ?C ?P ?S ?K]
  from t r have a: "\<forall>c \<in> set calls. snd c = filtered_kwargs ?P ?K"
    and b: "length vs = length calls
          \<and> (\<forall>k < length calls.
                 fst (?C (fst (calls ! k)) (filtered_kwargs ?P ?K)) = Inr (vs ! k))"
    by blast+
  from n r have lc: "length calls = 3" by simp
  with b have l: "length vs = 3" by simp
  have v: "vs ! j = [(''a'', 1), (''b'', 2)]" if "j < 3" for j
    using b lc that f by simp
  from a f have la: "list_all (\<lambda>c. snd c = [(''a'', 1), (''b'', 2)]) calls"
    by (simp add: list_all_iff)
  have u: "filtered_kwargs
         [\<lparr>param_name = ''context'', param_kind = POSITIONAL_OR_KEYWORD\<rparr>,
          \<lparr>param_name = ''kwargs'', param_kind = VAR_KEYWORD\<rparr>]
         [(''a'', 1 :: int), (''c'', 3)] = [(''a'', 1), (''c'', 3)]"
    by (simp add: filtered_kwargs_def)
  from v[of 0] v[of 1] v[of 2] have "vs ! 0 = [(''a'', 1), (''b'', 2)]"
    "vs ! 1 = [(''a'', 1), (''b'', 2)]" "vs ! 2 = [(''a'', 1), (''b'', 2)]" by simp_all
  with l la show ?thesis using k r u by (intro conjI exI) assumption+
qed

subsection \<open>The current stage\<close>

text \<open>
  C3. The \<open>k\<close>-th call of \<open>compute\<close> is an application of \<open>compute\<close> to a state in which
  the attribute \<open>stage\<close> has just been written with the \<open>k\<close>-th element of the list
  object under iteration: that state is the entry state (for the first call) or the state
  the call before it left, with only \<open>stage\<close> changed. The vector, or the exception, and
  the final state are those of these applications. When \<open>compute\<close> leaves the stage
  sequence alone the call of \<open>compute_stages\<close> comes back, the attribute \<open>stages\<close> still
  refers to the sequence the call started with, \<open>stage\<close> is its \<open>k\<close>-th element at the
  \<open>k\<close>-th call, and all stages are visited, in order, when no call raises.
\<close>

theorem compute_stages_current_stage:
  "(keeps_stages compute \<longrightarrow> compute_stages params compute ctx kwargs \<noteq> None)
   \<and> (\<forall>out ctx' calls.
         compute_stages params compute ctx kwargs = Some (out, ctx', calls) \<longrightarrow>
           (calls \<noteq> [] \<longrightarrow> fst (calls ! 0) = ctx\<lparr>stage := heap ctx (stages ctx) ! 0\<rparr>)
         \<and> (\<forall>k. Suc k < length calls \<longrightarrow>
               fst (calls ! Suc k) =
                 (call_state compute (calls ! k))
                   \<lparr>stage := heap (call_state compute (calls ! k)) (stages ctx) ! Suc k\<rparr>)
         \<and> (\<forall>k < length calls.
               k < length (heap (fst (calls ! k)) (stages ctx))
             \<and> stage (fst (calls ! k)) = heap (fst (calls ! k)) (stages ctx) ! k)
         \<and> (\<forall>vs. out = Inr vs \<longrightarrow> map (call_result compute) calls = map Inr vs)
         \<and> (\<forall>e. out = Inl e \<longrightarrow>
               (\<exists>vn. map (call_result compute) calls = map Inr vn @ [Inl e]))
         \<and> ctx' = (if calls = [] then ctx else call_state compute (last calls))
         \<and> (keeps_stages compute \<longrightarrow>
               length calls \<le> length (heap ctx (stages ctx))
             \<and> ((\<exists>vs. out = Inr vs) \<longrightarrow> length calls = length (heap ctx (stages ctx)))
             \<and> (\<forall>k < length calls.
                   stages (fst (calls ! k)) = stages ctx
                 \<and> heap (fst (calls ! k)) (stages (fst (calls ! k))) = heap ctx (stages ctx)
                 \<and> stage (fst (calls ! k)) = heap ctx (stages ctx) ! k)))"
proof (rule conjI)
  show "keeps_stages compute \<longrightarrow> compute_stages params compute ctx kwargs \<noteq> None"
    by (simp add: compute_stages_returns)
next
  show "\<forall>out ctx' calls.
         compute_stages params compute ctx kwargs = Some (out, ctx', calls) \<longrightarrow>
           (calls \<noteq> [] \<longrightarrow> fst (calls ! 0) = ctx\<lparr>stage := heap ctx (stages ctx) ! 0\<rparr>)
         \<and> (\<forall>k. Suc k < length calls \<longrightarrow>
               fst (calls ! Suc k) =
                 (call_state compute (calls ! k))
                   \<lparr>stage := heap (call_state compute (calls ! k)) (stages ctx) ! Suc k\<rparr>)
         \<and> (\<forall>k < length calls.
               k < length (heap (fst (calls ! k)) (stages ctx))
             \<and> stage (fst (calls ! k)) = heap (fst (calls ! k)) (stages ctx) ! k)
         \<and> (\<forall>vs. out = Inr vs \<longrightarrow> map (call_result compute) calls = map Inr vs)
         \<and> (\<forall>e. out = Inl e \<longrightarrow>
               (\<exists>vn. map (call_result compute) calls = map Inr vn @ [Inl e]))
         \<and> ctx' = (if calls = [] then ctx else call_state compute (last calls))
         \<and> (keeps_stages compute \<longrightarrow>
               length calls \<le> length (heap ctx (stages ctx))
             \<and> ((\<exists>vs. out = Inr vs) \<longrightarrow> length calls = length (heap ctx (stages ctx)))
             \<and> (\<forall>k < length calls.
                   stages (fst (calls ! k)) = stages ctx
                 \<and> heap (fst (calls ! k)) (stages (fst (calls ! k))) = heap ctx (stages ctx)
                 \<and> stage (fst (calls ! k)) = heap ctx (stages ctx) ! k))"
  proof (intro allI impI)
    fix out ctx' calls
    assume r: "compute_stages params compute ctx kwargs = Some (out, ctx', calls)"
    note g = compute_stages_run[OF r]
    have 3: "\<forall>k < length calls.
               k < length (heap (fst (calls ! k)) (stages ctx))
             \<and> stage (fst (calls ! k)) = heap (fst (calls ! k)) (stages ctx) ! k"
    proof (intro allI impI)
      fix k assume k: "k < length calls"
      have s: "stage (fst (calls ! k)) = heap (fst (calls ! k)) (stages ctx) ! k"
      proof (cases k)
        case 0
        with k g(5) have "fst (calls ! k) = ctx\<lparr>stage := heap ctx (stages ctx) ! 0\<rparr>" by auto
        with 0 show ?thesis by simp
      next
        case (Suc j)
        with k g(6) have "fst (calls ! k) =
             (call_state compute (calls ! j))
               \<lparr>stage := heap (call_state compute (calls ! j)) (stages ctx) ! Suc j\<rparr>" by simp
        with Suc show ?thesis by simp
      qed
      with g(7) k show "k < length (heap (fst (calls ! k)) (stages ctx))
             \<and> stage (fst (calls ! k)) = heap (fst (calls ! k)) (stages ctx) ! k" by simp
    qed
    have 7: "keeps_stages compute \<longrightarrow>
               length calls \<le> length (heap ctx (stages ctx))
             \<and> ((\<exists>vs. out = Inr vs) \<longrightarrow> length calls = length (heap ctx (stages ctx)))
             \<and> (\<forall>k < length calls.
                   stages (fst (calls ! k)) = stages ctx
                 \<and> heap (fst (calls ! k)) (stages (fst (calls ! k))) = heap ctx (stages ctx)
                 \<and> stage (fst (calls ! k)) = heap ctx (stages ctx) ! k)"
    proof
      assume ks: "keeps_stages compute"
      note h = compute_stages_kept[OF ks r]
      from h(1) h(2) h(3)
      show "length calls \<le> length (heap ctx (stages ctx))
             \<and> ((\<exists>vs. out = Inr vs) \<longrightarrow> length calls = length (heap ctx (stages ctx)))
             \<and> (\<forall>k < length calls.
                   stages (fst (calls ! k)) = stages ctx
                 \<and> heap (fst (calls ! k)) (stages (fst (calls ! k))) = heap ctx (stages ctx)
                 \<and> stage (fst (calls ! k)) = heap ctx (stages ctx) ! k)" by blast
    qed
    from g(5) g(6) 3 g(3) g(4) g(2) 7
    show "(calls \<noteq> [] \<longrightarrow> fst (calls ! 0) = ctx\<lparr>stage := heap ctx (stages ctx) ! 0\<rparr>)
         \<and> (\<forall>k. Suc k < length calls \<longrightarrow>
               fst (calls ! Suc k) =
                 (call_state compute (calls ! k))
                   \<lparr>stage := heap (call_state compute (calls ! k)) (stages ctx) ! Suc k\<rparr>)
         \<and> (\<forall>k < length calls.
               k < length (heap (fst (calls ! k)) (stages ctx))
             \<and> stage (fst (calls ! k)) = heap (fst (calls ! k)) (stages ctx) ! k)
         \<and> (\<forall>vs. out = Inr vs \<longrightarrow> map (call_result compute) calls = map Inr vs)
         \<and> (\<forall>e. out = Inl e \<longrightarrow>
               (\<exists>vn. map (call_result compute) calls = map Inr vn @ [Inl e]))
         \<and> ctx' = (if calls = [] then ctx else call_state compute (last calls))
         \<and> (keeps_stages compute \<longrightarrow>
               length calls \<le> length (heap ctx (stages ctx))
             \<and> ((\<exists>vs. out = Inr vs) \<longrightarrow> length calls = length (heap ctx (stages ctx)))
             \<and> (\<forall>k < length calls.
                   stages (fst (calls ! k)) = stages ctx
                 \<and> heap (fst (calls ! k)) (stages (fst (calls ! k))) = heap ctx (stages ctx)
                 \<and> stage (fst (calls ! k)) = heap ctx (stages ctx) ! k))"
      by (intro conjI)
  qed
qed

theorem compute_stages_current_stage_witness:
  "keeps_stages (\<lambda>(s :: state) (kw :: int kwargs). (Inr (stage s) :: unit + int, s))
   \<and> (\<exists>vs ctx' calls.
         compute_stages
           [\<lparr>param_name = ''context'', param_kind = POSITIONAL_OR_KEYWORD\<rparr>,
            \<lparr>param_name = ''a'', param_kind = POSITIONAL_OR_KEYWORD\<rparr>]
           (\<lambda>(s :: state) (kw :: int kwargs). (Inr (stage s) :: unit + int, s))
           \<lparr>stage = 7, stages = 0, heap = (\<lambda>_. [])(0 := [3, 4, 5])\<rparr>
           [(''a'', 1 :: int), (''c'', 3)] = Some (Inr vs, ctx', calls)
       \<and> length calls = 3
       \<and> fst (calls ! 0) = \<lparr>stage = 3, stages = 0, heap = (\<lambda>_. [])(0 := [3, 4, 5])\<rparr>
       \<and> stage (fst (calls ! 1)) = 4
       \<and> heap (fst (calls ! 1)) (stages (fst (calls ! 1))) = [3, 4, 5]
       \<and> vs ! 1 = 4)"
proof -
  let ?P = "[\<lparr>param_name = ''context'', param_kind = POSITIONAL_OR_KEYWORD\<rparr>,
            \<lparr>param_name = ''a'', param_kind = POSITIONAL_OR_KEYWORD\<rparr>]"
  let ?C = "(\<lambda>(s :: state) (kw :: int kwargs). (Inr (stage s) :: unit + int, s))"
  let ?S = "\<lparr>stage = 7, stages = 0, heap = (\<lambda>_. [])(0 := [3, 4, 5])\<rparr>"
  let ?K = "[(''a'', 1 :: int), (''c'', 3)]"
  have k: "keeps_stages ?C" by (simp add: keeps_stages_def)
  have f: "filtered_kwargs ?P ?K = [(''a'', 1)]" by (simp add: filtered_kwargs_def)
  have e: "\<exists>vs ctx' calls. compute_stages ?P ?C ?S ?K = Some (Inr vs, ctx', calls)"
    by (simp add: compute_stages_visit [OF k] f Let_def)
  then obtain vs ctx' calls where
    r: "compute_stages ?P ?C ?S ?K = Some (Inr vs, ctx', calls)" by blast
  note t = compute_stages_current_stage [of ?C ?P ?S ?K]
  from t r k have
    h: "calls \<noteq> [] \<longrightarrow> fst (calls ! 0) = ?S\<lparr>stage := heap ?S (stages ?S) ! 0\<rparr>" and
    m: "map (call_result ?C) calls = map Inr vs" and
    l: "length calls = length (heap ?S (stages ?S))" and
    a: "\<forall>k < length calls.
               stages (fst (calls ! k)) = stages ?S
             \<and> heap (fst (calls ! k)) (stages (fst (calls ! k))) = heap ?S (stages ?S)
             \<and> stage (fst (calls ! k)) = heap ?S (stages ?S) ! k"
    by blast+
  from l have lc: "length calls = 3" by simp
  then have ne: "calls \<noteq> []" by auto
  with h have c0: "fst (calls ! 0) = \<lparr>stage = 3, stages = 0, heap = (\<lambda>_. [])(0 := [3, 4, 5])\<rparr>"
    by simp
  from lc have one: "1 < length calls" by simp
  from a have "1 < length calls \<longrightarrow>
       stages (fst (calls ! 1)) = stages ?S
     \<and> heap (fst (calls ! 1)) (stages (fst (calls ! 1))) = heap ?S (stages ?S)
     \<and> stage (fst (calls ! 1)) = heap ?S (stages ?S) ! 1" by (rule spec)
  from this one have x:
    "stages (fst (calls ! 1)) = stages ?S
     \<and> heap (fst (calls ! 1)) (stages (fst (calls ! 1))) = heap ?S (stages ?S)
     \<and> stage (fst (calls ! 1)) = heap ?S (stages ?S) ! 1" by (rule mp)
  then have "stage (fst (calls ! 1)) = heap ?S (stages ?S) ! 1" by (elim conjE)
  then have c1a: "stage (fst (calls ! 1)) = 4" by simp
  from x have "heap (fst (calls ! 1)) (stages (fst (calls ! 1))) = heap ?S (stages ?S)"
    by (elim conjE)
  then have c1b: "heap (fst (calls ! 1)) (stages (fst (calls ! 1))) = [3, 4, 5]" by simp
  note c1 = c1a c1b
  from arg_cong [OF m, of length] lc have "length vs = 3" by simp
  with lc have i: "1 < length calls" "1 < length vs" by simp_all
  then have "call_result ?C (calls ! 1) = map (call_result ?C) calls ! 1" by simp
  also have "\<dots> = Inr (vs ! 1)" using m i by simp
  finally have "call_result ?C (calls ! 1) = Inr (vs ! 1)" .
  with c1a have "vs ! 1 = 4" by (simp add: call_result_def)
  with lc c0 c1 show ?thesis using k r by (intro conjI exI) assumption+
qed

text \<open>
  C10. When the default \<open>compute_stages\<close> has returned a vector for a non-empty stage
  sequence, the attribute \<open>stage\<close> holds the last element of the sequence, whatever it
  held before, provided \<open>compute\<close> itself does not write it. Nothing else is changed by
  \<open>compute_stages\<close>: whatever can be read from the state without reading \<open>stage\<close>, and
  is left alone by \<open>compute\<close>, reads the same after the call as before.
\<close>

theorem compute_stages_final_stage:
  fixes compute :: "('v, 'e, 'r, 'm) compute"
  assumes "keeps_stages compute"
      and "heap ctx (stages ctx) \<noteq> []"
      and "compute_stages params compute ctx kwargs = Some (Inr vs, ctx', calls)"
  shows "(keeps_stage compute \<longrightarrow> stage ctx' = last (heap ctx (stages ctx)))
       \<and> (\<forall>f. (\<forall>s x. f (s\<lparr>stage := x\<rparr>) = f s) \<and> (\<forall>s kw. f (snd (compute s kw)) = f s)
               \<longrightarrow> f ctx' = f ctx)"
proof -
  let ?xs = "heap ctx (stages ctx)"
  let ?kw = "filtered_kwargs params kwargs"
  have v: "visit compute ?kw ?xs [] [] ctx = (Inr vs, ctx', calls)"
    using compute_stages_visit[OF assms(1), of params ctx kwargs] assms(3) by simp
  from visit_log[OF v] have
    st: "map (\<lambda>c. stage (fst c)) calls = take (length calls) ?xs" and
    cs: "ctx' = (if calls = [] then ctx else call_state compute (last calls))" and
    len: "length calls = length ?xs"
    by auto
  have ne: "calls \<noteq> []" using len assms(2) by auto
  have a: "keeps_stage compute \<longrightarrow> stage ctx' = last ?xs"
  proof
    assume ks: "keeps_stage compute"
    have "stage ctx' = stage (fst (last calls))"
      using cs ne ks unfolding keeps_stage_def call_state_def by simp
    also have "\<dots> = last (map (\<lambda>c. stage (fst c)) calls)" using ne by (simp add: last_map)
    also have "\<dots> = last ?xs" using st len by simp
    finally show "stage ctx' = last ?xs" .
  qed
  have b: "\<forall>f. (\<forall>s x. f (s\<lparr>stage := x\<rparr>) = f s) \<and> (\<forall>s kw. f (snd (compute s kw)) = f s)
               \<longrightarrow> f ctx' = f ctx"
  proof (intro allI impI, elim conjE)
    fix f
    assume 1: "\<forall>s x. f (s\<lparr>stage := x\<rparr>) = f s" and 2: "\<forall>s kw. f (snd (compute s kw)) = f s"
    from visit_frame[of f compute ?kw ?xs "[]" "[]" ctx] 1 2 v show "f ctx' = f ctx" by simp
  qed
  from a b show ?thesis ..
qed

theorem compute_stages_final_stage_witness:
  "keeps_stages (\<lambda>(s :: state) (kw :: int kwargs). (Inr (stage s) :: unit + int, s))
   \<and> keeps_stage (\<lambda>(s :: state) (kw :: int kwargs). (Inr (stage s) :: unit + int, s))
   \<and> heap \<lparr>stage = 7, stages = 0, heap = (\<lambda>_. [])(0 := [3, 4, 5])\<rparr> (stages \<lparr>stage = 7, stages = 0, heap = (\<lambda>_. [])(0 := [3, 4, 5])\<rparr>) \<noteq> []
   \<and> (\<exists>vs ctx' calls.
         compute_stages
           [\<lparr>param_name = ''context'', param_kind = POSITIONAL_OR_KEYWORD\<rparr>,
            \<lparr>param_name = ''a'', param_kind = POSITIONAL_OR_KEYWORD\<rparr>]
           (\<lambda>(s :: state) (kw :: int kwargs). (Inr (stage s) :: unit + int, s))
           \<lparr>stage = 7, stages = 0, heap = (\<lambda>_. [])(0 := [3, 4, 5])\<rparr>
           [(''a'', 1 :: int), (''c'', 3)] = Some (Inr vs, ctx', calls)
       \<and> stage ctx' = 5 \<and> stages ctx' = 0)"
proof -
  let ?P = "[\<lparr>param_name = ''context'', param_kind = POSITIONAL_OR_KEYWORD\<rparr>,
            \<lparr>param_name = ''a'', param_kind = POSITIONAL_OR_KEYWORD\<rparr>]"
  let ?C = "(\<lambda>(s :: state) (kw :: int kwargs). (Inr (stage s) :: unit + int, s))"
  let ?S = "\<lparr>stage = 7, stages = 0, heap = (\<lambda>_. [])(0 := [3, 4, 5])\<rparr>"
  let ?K = "[(''a'', 1 :: int), (''c'', 3)]"
  have k: "keeps_stages ?C" by (simp add: keeps_stages_def)
  have k': "keeps_stage ?C" by (simp add: keeps_stage_def)
  have ne: "heap ?S (stages ?S) \<noteq> []" by simp
  have f: "filtered_kwargs ?P ?K = [(''a'', 1)]" by (simp add: filtered_kwargs_def)
  have "\<exists>vs ctx' calls. compute_stages ?P ?C ?S ?K = Some (Inr vs, ctx', calls)"
    by (simp add: compute_stages_visit [OF k] f Let_def)
  then obtain vs ctx' calls where r: "compute_stages ?P ?C ?S ?K = Some (Inr vs, ctx', calls)"
    by blast
  from compute_stages_final_stage [OF k ne r] have
    a: "keeps_stage ?C \<longrightarrow> stage ctx' = last (heap ?S (stages ?S))" and
    b: "\<forall>f :: state \<Rightarrow> nat. (\<forall>s x. f (s\<lparr>stage := x\<rparr>) = f s) \<and> (\<forall>s kw. f (snd (?C s kw)) = f s)
               \<longrightarrow> f ctx' = f ?S" by blast+
  from a k' have "stage ctx' = 5" by simp
  moreover from spec [OF b, of stages] have "stages ctx' = stages ?S" by simp
  then have "stages ctx' = 0" by simp
  ultimately show ?thesis using k k' ne r by (intro conjI exI) assumption+
qed

subsection \<open>Exceptions\<close>



section \<open>Properties of the constructors\<close>

text \<open>
  C8. The constructor of \<open>ScriptedElement\<close> hands to the base class, whatever name,
  element type and category it is given, exactly two callables, \<open>dialog\<close> and
  \<open>compute_stages\<close>, bound to the methods of that name of the element itself, and exactly
  one property, \<open>element_type\<close>, holding the element type supplied.
\<close>

theorem ScriptedElement_init_registers:
  "ScriptedElement_init Contribution_init self nm element_type category =
     Contribution_init self nm category
       [(''dialog'', Bound_method self ''dialog''),
        (''compute_stages'', Bound_method self ''compute_stages'')]
       [(''element_type'', element_type)]"
  by (simp add: ScriptedElement_init_def)

text \<open>
  C6. The constructor of \<open>ScriptedActual\<close> passes the category
  \<open>scriptedelement.actual\<close> and that of \<open>ScriptedCheck\<close> the category
  \<open>scriptedelement.check\<close>, for every name and every element type.
\<close>

theorem scripted_category_fixed:
  "ScriptedActual_init Contribution_init self nm element_type =
     Contribution_init self nm ''scriptedelement.actual''
       [(''dialog'', Bound_method self ''dialog''),
        (''compute_stages'', Bound_method self ''compute_stages'')]
       [(''element_type'', element_type)]
   \<and> ScriptedCheck_init Contribution_init self nm element_type =
     Contribution_init self nm ''scriptedelement.check''
       [(''dialog'', Bound_method self ''dialog''),
        (''compute_stages'', Bound_method self ''compute_stages'')]
       [(''element_type'', element_type)]"
  by (simp add: ScriptedActual_init_def ScriptedCheck_init_def ScriptedElement_init_def)


section \<open>Properties of the dialog API\<close>

text \<open>
  C7. \<open>execute\<close> passes the context and the dialog reference on to the host call
  boundary unchanged and yields what that call yields: the value it returns or the
  exception it raises, and the host state it leaves behind.
\<close>

theorem execute_forwards:
  "execute call_function context data h = call_function context data h"
  by (simp add: execute_def)

end
